theory Spec2Isabelle
  imports Complex_Main "HOL-Library.AList"
begin

section \<open>The LSH cache of \<^verbatim>\<open>lsh/cache.py\<close>\<close>

subsection \<open>Values\<close>

text \<open>
  A document id is a Python int or str; \<^verbatim>\<open>None\<close> is the \<open>None\<close> of
  \<open>doc_id option\<close>. The code accepts \<^verbatim>\<open>None\<close> wherever it accepts an id,
  so stores and buckets hold \<open>doc_id option\<close>.
\<close>

datatype doc_id = IntId int | StrId string

text \<open>
  Keys of a band's dictionary: \<^verbatim>\<open>update\<close> and the queries use the int
  \<^verbatim>\<open>hash(tuple(bucket))\<close>; \<^verbatim>\<open>from_json\<close> stores the keys as it reads them from
  JSON, which are strings.
\<close>

datatype bucket_key = IntKey int | StrKey string

datatype error =
    AssertionError string
  | ZeroDivisionError
  | ValueError string
  | KeyError
  | IndexError

text \<open>
  What a call of \<^verbatim>\<open>logging.warning(msg, arg)\<close> with a \<^verbatim>\<open>%d\<close> in \<open>msg\<close> leaves
  behind. An int is formatted and the warning emitted. A str cannot be formatted with
  \<^verbatim>\<open>%d\<close>: the handler reports a logging error on stderr, no warning is emitted and
  nothing is raised.
\<close>

datatype log_record = Warning string int | LoggingError

fun logging_warning :: "string \<Rightarrow> doc_id \<Rightarrow> log_record" where
  "logging_warning msg (IntId i) = Warning msg i"
| "logging_warning msg (StrId s) = LoggingError"

text \<open>
  \<^verbatim>\<open>lsh.minhash.MinHasher\<close> is not among the sources. The cache reads
  \<^verbatim>\<open>num_seeds\<close> and calls \<^verbatim>\<open>fingerprint\<close> and \<^verbatim>\<open>jaccard\<close>; the hasher is
  therefore a parameter, a record of these three. \<^verbatim>\<open>fingerprint\<close> is memoised in the
  source (it has \<^verbatim>\<open>cache_clear\<close>), so it is a function of the bytes. A document is
  given by its UTF-8 bytes, which makes \<^verbatim>\<open>doc.encode('utf8')\<close> the identity. The float
  that \<^verbatim>\<open>jaccard\<close> returns is only ever compared, and is read as the real it denotes.
\<close>

record MinHasher =
  num_seeds :: int
  fingerprint :: "string \<Rightarrow> int list"
  jaccard :: "int list \<Rightarrow> int list \<Rightarrow> real"

text \<open>
  The built-in \<^verbatim>\<open>hash\<close> on a tuple of ints is a parameter of the model as well, of
  this type.
\<close>

type_synonym tuple_hash = "int list \<Rightarrow> int"

subsection \<open>Python sets and dictionaries\<close>

text \<open>
  A Python set is a duplicate-free list in iteration order, and a dict an association
  list in insertion order. Python leaves the iteration order of a set open; the model
  iterates in insertion order. The theorems below speak about \<open>set\<close> of such a list
  wherever the order plays no role.
\<close>

definition set_add :: "'a list \<Rightarrow> 'a \<Rightarrow> 'a list" where
  "set_add s x = (if x \<in> set s then s else s @ [x])"

definition set_update :: "'a list \<Rightarrow> 'a list \<Rightarrow> 'a list" where
  "set_update s xs = foldl set_add s xs"

text \<open>\<^verbatim>\<open>d[k]\<close> on a \<^verbatim>\<open>defaultdict(set)\<close>: a missing key is inserted with an empty set.\<close>

definition dd_getitem :: "('k \<times> 'a list) list \<Rightarrow> 'k \<Rightarrow> 'a list \<times> ('k \<times> 'a list) list" where
  "dd_getitem d k = (case map_of d k of Some v \<Rightarrow> (v, d) | None \<Rightarrow> ([], d @ [(k, [])]))"

text \<open>\<^verbatim>\<open>itertools.combinations(s, r=2)\<close>: pairs of positions, in lexicographic order.\<close>

fun combinations2 :: "'a list \<Rightarrow> ('a \<times> 'a) list" where
  "combinations2 [] = []"
| "combinations2 (x # xs) = map (Pair x) xs @ combinations2 xs"

subsection \<open>The cache\<close>

type_synonym band_dict = "(bucket_key \<times> doc_id option list) list"

record Cache =
  bins :: "band_dict list"
  hasher :: MinHasher
  band_width :: int
  num_bands :: int
  fingerprints :: "(doc_id option \<times> int list) list"

definition msg :: string where
  "msg = ''The number of seeds in the fingerprint must be divisible by the number of bands''"

text \<open>
  \<^verbatim>\<open>__init__\<close>. \<^verbatim>\<open>%\<close> and \<^verbatim>\<open>//\<close> on Python ints are \<open>mod\<close> and \<open>div\<close> on \<open>int\<close>
  (both round towards minus infinity), except that Python raises on a zero divisor.
  \<^verbatim>\<open>range(n)\<close> is empty for a negative \<open>n\<close>.
\<close>

definition Cache_init :: "MinHasher \<Rightarrow> int \<Rightarrow> error + Cache" where
  "Cache_init h nb =
     (if nb = 0 then Inl ZeroDivisionError
      else if num_seeds h mod nb \<noteq> 0 then Inl (AssertionError msg)
      else Inr \<lparr>bins = replicate (nat nb) [], hasher = h,
                band_width = num_seeds h div nb, num_bands = nb, fingerprints = []\<rparr>)"

text \<open>
  \<^verbatim>\<open>numpy.array_split(ary, n)\<close>: \<open>n\<close> sections, the first \<open>len mod n\<close> of them one
  longer than the rest; a ValueError for \<open>n \<le> 0\<close>.
\<close>

fun split_sizes :: "'a list \<Rightarrow> nat list \<Rightarrow> 'a list list" where
  "split_sizes xs [] = []"
| "split_sizes xs (n # ns) = take n xs # split_sizes (drop n xs) ns"

definition array_split :: "int list \<Rightarrow> int \<Rightarrow> error + int list list" where
  "array_split ary n =
     (if n \<le> 0 then Inl (ValueError ''number sections must be larger than 0.'')
      else let each = length ary div nat n; extras = length ary mod nat n
           in Inr (split_sizes ary
                     (replicate extras (each + 1) @ replicate (nat n - extras) each)))"

text \<open>\<^verbatim>\<open>bins_\<close>, named \<open>bins'\<close> here; the generator is read as the list it yields.\<close>

definition bins' :: "Cache \<Rightarrow> int list \<Rightarrow> error + (nat \<times> int list) list" where
  "bins' c fp =
     (case array_split fp (num_bands c) of
        Inl e \<Rightarrow> Inl e
      | Inr bands \<Rightarrow> Inr (enumerate 0 bands))"

text \<open>
  \<^verbatim>\<open>clear\<close>. \<^verbatim>\<open>hasher.fingerprint.cache_clear()\<close> drops the memo table of a function
  of the bytes and changes no value.
\<close>

definition clear :: "Cache \<Rightarrow> Cache" where
  "clear c = c\<lparr>bins := replicate (nat (num_bands c)) []\<rparr>"

text \<open>
  \<^verbatim>\<open>update\<close>. The loop over the bands; \<^verbatim>\<open>self.bins[bin_i]\<close> raises IndexError
  past the end of the list. The result is the exception raised, if any, the
  records logged (\<^verbatim>\<open>doc_id is not None and doc_id in self.fingerprints\<close> is the case
  distinction on the id followed by the test on the store), and the cache as the call
  leaves it (the fingerprint is stored before the loop starts).
\<close>

fun add_to_bins ::
  "tuple_hash \<Rightarrow> doc_id option \<Rightarrow> (nat \<times> int list) list \<Rightarrow> band_dict list
     \<Rightarrow> error option \<times> band_dict list" where
  "add_to_bins H doc_id [] bs = (None, bs)"
| "add_to_bins H doc_id ((bin_i, bucket) # rest) bs =
     (if bin_i < length bs then
        (let bucket_id = IntKey (H bucket);
             (v, d) = dd_getitem (bs ! bin_i) bucket_id
         in add_to_bins H doc_id rest
              (bs[bin_i := AList.update bucket_id (set_add v doc_id) d]))
      else (Some IndexError, bs))"

definition update ::
  "tuple_hash \<Rightarrow> Cache \<Rightarrow> string \<Rightarrow> doc_id option \<Rightarrow> error option \<times> log_record list \<times> Cache" where
  "update H c doc doc_id =
     (let fp = fingerprint (hasher c) doc;
          logged = (case doc_id of
                      None \<Rightarrow> []
                    | Some d \<Rightarrow>
                        if map_of (fingerprints c) doc_id \<noteq> None
                        then [logging_warning ''Duplicate id %d'' d] else []);
          c1 = c\<lparr>fingerprints := AList.update doc_id fp (fingerprints c)\<rparr>
      in case bins' c1 fp of
           Inl e \<Rightarrow> (Some e, logged, c1)
         | Inr bands \<Rightarrow>
             (case add_to_bins H doc_id bands (bins c1) of
                (e, bs) \<Rightarrow> (e, logged, c1\<lparr>bins := bs\<rparr>)))"

text \<open>\<^verbatim>\<open>filter_candidates\<close>: \<^verbatim>\<open>self.fingerprints[id]\<close> raises KeyError on an absent id.\<close>

fun filter_loop ::
  "Cache \<Rightarrow> (doc_id option \<times> doc_id option) list \<Rightarrow> real
     \<Rightarrow> (doc_id option \<times> doc_id option) list \<Rightarrow> error + (doc_id option \<times> doc_id option) list" where
  "filter_loop c [] min_jaccard res = Inr res"
| "filter_loop c ((id1, id2) # ps) min_jaccard res =
     (case map_of (fingerprints c) id1 of
        None \<Rightarrow> Inl KeyError
      | Some f1 \<Rightarrow>
          (case map_of (fingerprints c) id2 of
             None \<Rightarrow> Inl KeyError
           | Some f2 \<Rightarrow>
               filter_loop c ps min_jaccard
                 (if jaccard (hasher c) f1 f2 > min_jaccard then set_add res (id1, id2) else res)))"

definition filter_candidates ::
  "Cache \<Rightarrow> (doc_id option \<times> doc_id option) list \<Rightarrow> real
     \<Rightarrow> error + (doc_id option \<times> doc_id option) list" where
  "filter_candidates c candidate_id_pairs min_jaccard =
     filter_loop c candidate_id_pairs min_jaccard []"

text \<open>\<^verbatim>\<open>get_all_duplicates\<close>: the loop over the keys of one band, then over the bands.\<close>

fun bucket_loop ::
  "band_dict \<Rightarrow> bucket_key list \<Rightarrow> (doc_id option \<times> doc_id option) list
     \<Rightarrow> (doc_id option \<times> doc_id option) list" where
  "bucket_loop b [] candidate_pairs = candidate_pairs"
| "bucket_loop b (bucket_id # ks) candidate_pairs =
     (case map_of b bucket_id of
        None \<Rightarrow> bucket_loop b ks candidate_pairs
      | Some v \<Rightarrow>
          bucket_loop b ks
            (if length v > 1
             then set_update candidate_pairs (set_update [] (combinations2 v))
             else candidate_pairs))"

fun bins_loop ::
  "band_dict list \<Rightarrow> (doc_id option \<times> doc_id option) list
     \<Rightarrow> (doc_id option \<times> doc_id option) list" where
  "bins_loop [] candidate_pairs = candidate_pairs"
| "bins_loop (b # bs) candidate_pairs = bins_loop bs (bucket_loop b (map fst b) candidate_pairs)"

definition get_all_duplicates ::
  "Cache \<Rightarrow> real option \<Rightarrow> error + (doc_id option \<times> doc_id option) list" where
  "get_all_duplicates c min_jaccard =
     (let candidate_pairs = bins_loop (bins c) []
      in case min_jaccard of
           None \<Rightarrow> Inr candidate_pairs
         | Some t \<Rightarrow> filter_candidates c candidate_pairs t)"

text \<open>
  \<^verbatim>\<open>get_duplicates_of\<close>. Reading \<^verbatim>\<open>self.bins[bin_i][bucket_id]\<close> inserts an empty
  bucket for a missing key, so the call returns the cache as well.
\<close>

definition must_provide :: string where
  "must_provide = ''Must provide a document or a know document id''"

fun collect_loop ::
  "tuple_hash \<Rightarrow> (nat \<times> int list) list \<Rightarrow> band_dict list \<Rightarrow> doc_id option list
     \<Rightarrow> error option \<times> doc_id option list \<times> band_dict list" where
  "collect_loop H [] bs candidates = (None, candidates, bs)"
| "collect_loop H ((bin_i, bucket) # rest) bs candidates =
     (if bin_i < length bs then
        (let bucket_id = IntKey (H bucket);
             (v, d) = dd_getitem (bs ! bin_i) bucket_id
         in collect_loop H rest (bs[bin_i := d]) (set_update candidates v))
      else (Some IndexError, candidates, bs))"

fun jaccard_loop ::
  "Cache \<Rightarrow> int list \<Rightarrow> real \<Rightarrow> doc_id option list \<Rightarrow> doc_id option list
     \<Rightarrow> error + doc_id option list" where
  "jaccard_loop c fp min_jaccard [] res = Inr res"
| "jaccard_loop c fp min_jaccard (x # xs) res =
     (case map_of (fingerprints c) x of
        None \<Rightarrow> Inl KeyError
      | Some f \<Rightarrow>
          jaccard_loop c fp min_jaccard xs
            (if jaccard (hasher c) fp f > min_jaccard then set_add res x else res))"

text \<open>Lines 142 to 152: the lookup, once the fingerprint is fixed.\<close>

definition candidates_of ::
  "tuple_hash \<Rightarrow> Cache \<Rightarrow> int list \<Rightarrow> real option \<Rightarrow> (error + doc_id option list) \<times> Cache" where
  "candidates_of H c fp min_jaccard =
     (case bins' c fp of
        Inl e \<Rightarrow> (Inl e, c)
      | Inr bands \<Rightarrow>
          (case collect_loop H bands (bins c) [] of
             (Some e, candidates, bs) \<Rightarrow> (Inl e, c\<lparr>bins := bs\<rparr>)
           | (None, candidates, bs) \<Rightarrow>
               (case min_jaccard of
                  None \<Rightarrow> (Inr candidates, c\<lparr>bins := bs\<rparr>)
                | Some t \<Rightarrow> (jaccard_loop (c\<lparr>bins := bs\<rparr>) fp t candidates [], c\<lparr>bins := bs\<rparr>))))"

definition get_duplicates_of ::
  "tuple_hash \<Rightarrow> Cache \<Rightarrow> string option \<Rightarrow> doc_id option \<Rightarrow> real option
     \<Rightarrow> (error + doc_id option list) \<times> Cache" where
  "get_duplicates_of H c doc doc_id min_jaccard =
     (if doc_id \<noteq> None \<and> map_of (fingerprints c) doc_id \<noteq> None then
        (case map_of (fingerprints c) doc_id of
           Some fp \<Rightarrow> candidates_of H c fp min_jaccard
         | None \<Rightarrow> (Inl KeyError, c))
      else if doc \<noteq> None then
        candidates_of H c (fingerprint (hasher c) (the doc)) min_jaccard
      else (Inl (ValueError must_provide), c))"

text \<open>\<^verbatim>\<open>is_duplicate\<close>; \<^verbatim>\<open>s - {doc_id}\<close> keeps the other members of \<open>s\<close>.\<close>

definition is_duplicate ::
  "tuple_hash \<Rightarrow> Cache \<Rightarrow> string option \<Rightarrow> doc_id option \<Rightarrow> (error + bool) \<times> Cache" where
  "is_duplicate H c doc doc_id =
     (if doc_id \<noteq> None \<and> map_of (fingerprints c) doc_id \<noteq> None then (Inr False, c)
      else (case get_duplicates_of H c doc None None of
              (Inl e, c') \<Rightarrow> (Inl e, c')
            | (Inr s, c') \<Rightarrow> (Inr (length (filter (\<lambda>x. x \<noteq> doc_id) s) > 0), c')))"

subsection \<open>Sequences of calls\<close>

text \<open>The state that a sequence of \<^verbatim>\<open>update\<close> and \<^verbatim>\<open>clear\<close> calls leaves behind.\<close>

datatype call = Update string "doc_id option" | Clear

fun run :: "tuple_hash \<Rightarrow> Cache \<Rightarrow> call list \<Rightarrow> Cache" where
  "run H c [] = c"
| "run H c (Update doc doc_id # cs) = run H (snd (snd (update H c doc doc_id))) cs"
| "run H c (Clear # cs) = run H (clear c) cs"

text \<open>What \<^verbatim>\<open>d[k]\<close> returns on a \<^verbatim>\<open>defaultdict(set)\<close>: the bucket under \<open>k\<close>, empty if absent.\<close>

definition bucket_at :: "('k \<times> 'a list) list \<Rightarrow> 'k \<Rightarrow> 'a list" where
  "bucket_at d k = (case map_of d k of Some v \<Rightarrow> v | None \<Rightarrow> [])"

text \<open>The ids that occur in the buckets of a band's dictionary, and of all bands.\<close>

definition ids_of_dict :: "band_dict \<Rightarrow> doc_id option set" where
  "ids_of_dict d = (\<Union>(k, v)\<in>set d. set v)"

definition ids_in_buckets :: "band_dict list \<Rightarrow> doc_id option set" where
  "ids_in_buckets bs = (\<Union>d\<in>set bs. ids_of_dict d)"

text \<open>
  Two properties of a state. The buckets are sets: no id occurs twice in one of them.
  And each of the listed registrations is still in place: the id sits in the bucket of
  every band of its document's fingerprint.
\<close>

definition buckets_distinct :: "band_dict list \<Rightarrow> bool" where
  "buckets_distinct bs \<longleftrightarrow> (\<forall>d\<in>set bs. \<forall>(k, v)\<in>set d. distinct v)"


subsection \<open>Persistence\<close>

text \<open>\<^verbatim>\<open>str(i)\<close> for an int, which is how \<^verbatim>\<open>json.dump\<close> writes an int key.\<close>

fun digits :: "nat \<Rightarrow> string" where
  "digits n = (if n < 10 then [char_of (48 + n)] else digits (n div 10) @ [char_of (48 + n mod 10)])"

definition str_int :: "int \<Rightarrow> string" where
  "str_int i = (if i < 0 then CHR ''-'' # digits (nat (- i)) else digits (nat i))"

text \<open>
  \<^verbatim>\<open>int(s)\<close> on a string of one character, which is all \<^verbatim>\<open>from_json\<close> applies it
  to: the value of a digit, a ValueError otherwise.
\<close>

definition int_of_char :: "char \<Rightarrow> error + int" where
  "int_of_char ch =
     (let n = (of_char ch :: nat)
      in if 48 \<le> n \<and> n \<le> 57 then Inr (int n - 48)
         else Inl (ValueError ''invalid literal for int() with base 10''))"

text \<open>
  The dict that \<^verbatim>\<open>jsonable\<close> returns, one field per key. Buckets are lists now, which
  they are in the model already.

  Modelled from the spec: \<^verbatim>\<open>MinHasher.jsonable\<close> and \<^verbatim>\<open>MinHasher.from_json_str\<close> are
  not among the sources. The export and import of the hasher's configuration "round-trips
  whatever parameters are needed to reproduce identical fingerprints", so the exported
  value stands for the hasher and the import returns that hasher.
\<close>

record Jsonable =
  j_bins :: "band_dict list"
  j_hasher :: MinHasher
  j_band_width :: int
  j_num_bands :: int
  j_fingerprints :: "(doc_id option \<times> int list) list"
  j_id_key_type :: "string option"

definition jsonable :: "Cache \<Rightarrow> Jsonable" where
  "jsonable c =
     \<lparr>j_bins = bins c, j_hasher = hasher c, j_band_width = band_width c,
      j_num_bands = num_bands c, j_fingerprints = fingerprints c,
      j_id_key_type =
        (case fingerprints c of
           [] \<Rightarrow> None
         | (sample_id, _) # _ \<Rightarrow>
             (case sample_id of
                Some (StrId _) \<Rightarrow> Some ''str''
              | Some (IntId _) \<Rightarrow> Some ''int''
              | None \<Rightarrow> None))\<rparr>"

text \<open>
  The file as \<^verbatim>\<open>json.load\<close> reads it back: \<^verbatim>\<open>json.dump\<close> writes every dict key
  as a string (a str as it is, an int through \<^verbatim>\<open>str\<close>, \<^verbatim>\<open>None\<close> as \<^verbatim>\<open>null\<close>),
  and of two equal keys of an object \<^verbatim>\<open>json.load\<close> keeps the later value. Values
  (ints, strings, \<^verbatim>\<open>None\<close>, lists) come back as they were.
\<close>

fun json_key_id :: "doc_id option \<Rightarrow> string" where
  "json_key_id None = ''null''"
| "json_key_id (Some (IntId i)) = str_int i"
| "json_key_id (Some (StrId s)) = s"

fun json_key_bucket :: "bucket_key \<Rightarrow> string" where
  "json_key_bucket (IntKey i) = str_int i"
| "json_key_bucket (StrKey s) = s"

definition dict_of :: "('k \<times> 'v) list \<Rightarrow> ('k \<times> 'v) list" where
  "dict_of kvs = foldl (\<lambda>d (k, v). AList.update k v d) [] kvs"

record Json =
  json_bins :: "(string \<times> doc_id option list) list list"
  json_hasher :: MinHasher
  json_band_width :: int
  json_num_bands :: int
  json_fingerprints :: "(string \<times> int list) list"
  json_id_key_type :: "string option"

definition json_dump_load :: "Jsonable \<Rightarrow> Json" where
  "json_dump_load d =
     \<lparr>json_bins = map (\<lambda>b. dict_of (map (\<lambda>(k, v). (json_key_bucket k, v)) b)) (j_bins d),
      json_hasher = j_hasher d, json_band_width = j_band_width d,
      json_num_bands = j_num_bands d,
      json_fingerprints = dict_of (map (\<lambda>(k, v). (json_key_id k, v)) (j_fingerprints d)),
      json_id_key_type = j_id_key_type d\<rparr>"

definition to_json :: "Cache \<Rightarrow> Json" where
  "to_json c = json_dump_load (jsonable c)"

text \<open>
  \<^verbatim>\<open>from_json\<close>. The table of casts, applied to \<^verbatim>\<open>k[0]\<close>, the first character of
  the key (IndexError on an empty key); a key of a JSON object is a str, so the identity
  cast yields a str id. The keys of the bins are stored as read.
\<close>

definition key_typecast :: "string \<Rightarrow> (char \<Rightarrow> error + doc_id option) option" where
  "key_typecast t =
     (if t = ''int'' then Some (\<lambda>ch. map_sum id (\<lambda>i. Some (IntId i)) (int_of_char ch))
      else if t = ''str'' then Some (\<lambda>ch. Inr (Some (StrId [ch])))
      else if t = [] then Some (\<lambda>ch. Inr (Some (StrId [ch])))
      else None)"

fun fingerprints_loop ::
  "(char \<Rightarrow> error + doc_id option) \<Rightarrow> (string \<times> int list) list
     \<Rightarrow> (doc_id option \<times> int list) list \<Rightarrow> error + (doc_id option \<times> int list) list" where
  "fingerprints_loop func [] acc = Inr acc"
| "fingerprints_loop func ((k, v) # rest) acc =
     (case k of
        [] \<Rightarrow> Inl IndexError
      | ch # _ \<Rightarrow>
          (case func ch of
             Inl e \<Rightarrow> Inl e
           | Inr key \<Rightarrow> fingerprints_loop func rest (AList.update key v acc)))"

definition from_json :: "Json \<Rightarrow> error + Cache" where
  "from_json data =
     (case Cache_init (json_hasher data) (json_num_bands data) of
        Inl e \<Rightarrow> Inl e
      | Inr cache \<Rightarrow>
          (let bs = map (\<lambda>bin. dict_of (map (\<lambda>(k, v). (StrKey k, set_update [] v)) bin))
                      (json_bins data)
           in case key_typecast (case json_id_key_type data of None \<Rightarrow> [] | Some t \<Rightarrow> t) of
                None \<Rightarrow> Inl KeyError
              | Some func \<Rightarrow>
                  (case fingerprints_loop func (json_fingerprints data) [] of
                     Inl e \<Rightarrow> Inl e
                   | Inr fps \<Rightarrow> Inr (cache\<lparr>bins := bs, fingerprints := fps\<rparr>))))"

subsection \<open>A hasher and a tuple hash to evaluate with\<close>

text \<open>
  \<open>byte_hasher n\<close> takes the first \<open>n\<close> bytes of a document as its fingerprint (padded
  with zeros) and the share of equal positions as the similarity; \<open>poly_hash\<close> is a
  polynomial hash of a tuple.
\<close>

definition byte_hasher :: "nat \<Rightarrow> MinHasher" where
  "byte_hasher n =
     \<lparr>num_seeds = int n,
      fingerprint = (\<lambda>doc. map (\<lambda>i. if i < length doc then of_char (doc ! i) else 0) [0..<n]),
      jaccard = (\<lambda>a b. real (length (filter (\<lambda>(x, y). x = y) (zip a b))) / real (max 1 (length a)))\<rparr>"

definition poly_hash :: tuple_hash where
  "poly_hash xs = foldl (\<lambda>h x. 31 * h + x) 7 xs"

text \<open>
  \<open>empty_cache\<close> is what \<^verbatim>\<open>Cache(hasher, num_bands=2)\<close> builds on \<open>byte_hasher 2\<close>, and
  \<open>example_cache\<close> the state after three registrations, the third under an id that is
  taken already. The ids 0 and 8 are such that CPython, too, iterates each bucket in the
  order of insertion.
\<close>

definition empty_cache :: Cache where
  "empty_cache =
     \<lparr>bins = [[], []], hasher = byte_hasher 2, band_width = 1, num_bands = 2, fingerprints = []\<rparr>"

definition example_calls :: "call list" where
  "example_calls =
     [Update ''ab'' (Some (IntId 0)), Update ''ac'' (Some (IntId 8)), Update ''dc'' (Some (IntId 0))]"

definition example_cache :: Cache where
  "example_cache = run poly_hash empty_cache example_calls"

definition example_cache_xy :: Cache where
  "example_cache_xy = run poly_hash empty_cache (example_calls @ [Update ''xy'' (Some (IntId 5))])"

text \<open>
  \<open>example_cache_loaded\<close> is \<open>example_cache\<close> with the keys of its bins as strings,
  and \<open>long_id_cache\<close> a cache with one document under the id 12.
\<close>

definition example_cache_loaded :: Cache where
  "example_cache_loaded =
     \<lparr>bins = [[(StrKey ''314'', [Some (IntId 0), Some (IntId 8)]), (StrKey ''317'', [Some (IntId 0)])],
              [(StrKey ''315'', [Some (IntId 0)]), (StrKey ''316'', [Some (IntId 8), Some (IntId 0)])]],
      hasher = byte_hasher 2, band_width = 1, num_bands = 2,
      fingerprints = [(Some (IntId 0), [100, 99]), (Some (IntId 8), [97, 99])]\<rparr>"

definition long_id_cache :: Cache where
  "long_id_cache = run poly_hash empty_cache [Update ''ab'' (Some (IntId 12))]"

text \<open>\<open>none_id_cache\<close> is the state after one registration under the id \<^verbatim>\<open>None\<close>.\<close>

definition none_id_cache :: Cache where
  "none_id_cache = run poly_hash empty_cache [Update ''ab'' None]"

section \<open>Evaluation\<close>

declare digits.simps [simp del]

lemma num_seeds_byte_hasher: "num_seeds (byte_hasher n) = int n"
  by (simp add: byte_hasher_def)

lemma fingerprint_byte_hasher_2:
  "fingerprint (byte_hasher 2) [a, b] = [of_char a, of_char b]"
  by (simp add: byte_hasher_def numeral_2_eq_2 upt_rec)

lemma jaccard_byte_hasher:
  "jaccard (byte_hasher n) a b =
     real (length (filter (\<lambda>(x, y). x = y) (zip a b))) / real (max 1 (length a))"
  by (simp add: byte_hasher_def)

lemma replicate_nat_2: "replicate 2 x = [x, x]"
  by (simp add: numeral_2_eq_2)

lemma Cache_init_example: "Cache_init (byte_hasher 2) 2 = Inr empty_cache"
  by (simp add: Cache_init_def empty_cache_def num_seeds_byte_hasher replicate_nat_2)

lemma array_split_2: "array_split [a, b] 2 = Inr [[a], [b]]"
  by (simp add: array_split_def numeral_2_eq_2)

lemma bins'_2: "num_bands c = 2 \<Longrightarrow> bins' c [a, b] = Inr [(0, [a]), (1, [b])]"
  by (simp add: bins'_def array_split_2)

lemmas eval_defs =
  update_def bins'_2 Let_def dd_getitem_def set_add_def set_update_def
  poly_hash_def clear_def fingerprint_byte_hasher_2

lemma example_cache_eq:
  "example_cache =
     \<lparr>bins = [[(IntKey 314, [Some (IntId 0), Some (IntId 8)]), (IntKey 317, [Some (IntId 0)])],
              [(IntKey 315, [Some (IntId 0)]), (IntKey 316, [Some (IntId 8), Some (IntId 0)])]],
      hasher = byte_hasher 2, band_width = 1, num_bands = 2,
      fingerprints = [(Some (IntId 0), [100, 99]), (Some (IntId 8), [97, 99])]\<rparr>"
  by (simp add: example_cache_def example_calls_def empty_cache_def eval_defs)

section \<open>Construction\<close>

text \<open>
  C4, as amended. For every pair with \<open>num_bands \<noteq> 0\<close>: if
  \<open>num_seeds % num_bands == 0\<close> the construction succeeds and sets
  \<open>band_width = num_seeds // num_bands\<close>; otherwise it fails with the AssertionError
  that carries the message on divisibility.
\<close>

theorem Cache_init_divisible:
  "nb \<noteq> 0 \<Longrightarrow>
     (num_seeds h mod nb = 0 \<longrightarrow>
        (\<exists>c. Cache_init h nb = Inr c \<and> band_width c = num_seeds h div nb \<and> num_bands c = nb)) \<and>
     (num_seeds h mod nb \<noteq> 0 \<longrightarrow> Cache_init h nb = Inl (AssertionError msg))"
  by (simp add: Cache_init_def)

theorem Cache_init_divisible_witness:
  "(2::int) \<noteq> 0 \<and> num_seeds (byte_hasher 2) mod 2 = 0 \<and>
   (\<exists>c. Cache_init (byte_hasher 2) 2 = Inr c \<and> band_width c = 1 \<and> num_bands c = 2) \<and>
   (3::int) \<noteq> 0 \<and> num_seeds (byte_hasher 2) mod 3 \<noteq> 0 \<and>
   Cache_init (byte_hasher 2) 3 = Inl (AssertionError msg)"
  using Cache_init_divisible [of 2 "byte_hasher 2"] Cache_init_divisible [of 3 "byte_hasher 2"]
  by (simp add: num_seeds_byte_hasher)

text \<open>
  With \<open>num_bands = 0\<close> the modulus itself raises: the construction fails with a
  ZeroDivisionError, where C4 as stated asks for the error on divisibility.
\<close>

theorem Cache_init_zero_bands:
  "num_seeds (byte_hasher 2) mod 0 \<noteq> 0 \<and>
   Cache_init (byte_hasher 2) 0 = Inl ZeroDivisionError \<and>
   Cache_init (byte_hasher 2) 0 \<noteq> Inl (AssertionError msg)"
  by (simp add: Cache_init_def num_seeds_byte_hasher)

section \<open>Clearing\<close>

lemma bins_loop_replicate_Nil: "bins_loop (replicate n []) acc = acc"
  by (induction n) simp_all

text \<open>
  C7. After \<^verbatim>\<open>clear\<close>, \<^verbatim>\<open>get_all_duplicates\<close> returns the empty set, with or without a
  threshold, every band's dictionary is empty, and the fingerprint store is the one from
  before: every id maps to the fingerprint it had.
\<close>

theorem clear_keeps_fingerprints:
  "get_all_duplicates (clear c) None = Inr [] \<and>
   get_all_duplicates (clear c) (Some t) = Inr [] \<and>
   set (bins (clear c)) \<subseteq> {[]} \<and>
   fingerprints (clear c) = fingerprints c \<and>
   map_of (fingerprints (clear c)) doc_id = map_of (fingerprints c) doc_id"
  by (auto simp: get_all_duplicates_def clear_def bins_loop_replicate_Nil filter_candidates_def)

section \<open>Resolving the fingerprint of a query\<close>

lemma collect_loop_error: "collect_loop H bands bs cand = (Some e, r) \<Longrightarrow> e = IndexError"
  by (induction H bands bs cand rule: collect_loop.induct) (auto split: if_splits prod.splits)

lemma jaccard_loop_error: "jaccard_loop c fp t xs res = Inl e \<Longrightarrow> e = KeyError"
  by (induction c fp t xs res rule: jaccard_loop.induct) (auto split: option.splits)

lemma bins'_error:
  "bins' c fp = Inl e \<Longrightarrow> e = ValueError ''number sections must be larger than 0.''"
  by (auto simp: bins'_def array_split_def Let_def split: sum.splits if_splits)

lemma candidates_of_error: "fst (candidates_of H c fp mj) \<noteq> Inl (ValueError must_provide)"
  by (auto simp: candidates_of_def must_provide_def split: sum.splits prod.splits option.splits
      dest: bins'_error collect_loop_error jaccard_loop_error)

text \<open>
  C8. \<^verbatim>\<open>get_duplicates_of\<close> raises the ValueError "Must provide a document or a know
  document id" exactly when no document is supplied and the id is \<^verbatim>\<open>None\<close> or not in
  the store. An id in the store makes the call look up the stored fingerprint; otherwise
  a supplied document makes it look up the fingerprint computed from the document.
\<close>

theorem get_duplicates_of_resolve:
  "(fst (get_duplicates_of H c doc doc_id mj) = Inl (ValueError must_provide) \<longleftrightarrow>
      doc = None \<and> (doc_id = None \<or> map_of (fingerprints c) doc_id = None)) \<and>
   (\<forall>fp. doc_id \<noteq> None \<and> map_of (fingerprints c) doc_id = Some fp \<longrightarrow>
      get_duplicates_of H c doc doc_id mj = candidates_of H c fp mj) \<and>
   (\<forall>d. (doc_id = None \<or> map_of (fingerprints c) doc_id = None) \<and> doc = Some d \<longrightarrow>
      get_duplicates_of H c doc doc_id mj = candidates_of H c (fingerprint (hasher c) d) mj)"
  by (auto simp: get_duplicates_of_def candidates_of_error split: option.splits)

theorem get_duplicates_of_resolve_witness:
  "fst (get_duplicates_of poly_hash example_cache None (Some (IntId 7)) None)
     = Inl (ValueError must_provide) \<and>
   map_of (fingerprints example_cache) (Some (IntId 7)) = None \<and>
   map_of (fingerprints example_cache) (Some (IntId 8)) = Some [97, 99] \<and>
   get_duplicates_of poly_hash example_cache None (Some (IntId 8)) None
     = candidates_of poly_hash example_cache [97, 99] None \<and>
   get_duplicates_of poly_hash example_cache (Some ''ab'') (Some (IntId 7)) None
     = candidates_of poly_hash example_cache [97, 98] None"
  using get_duplicates_of_resolve [of poly_hash example_cache None "Some (IntId 7)" None]
    get_duplicates_of_resolve [of poly_hash example_cache None "Some (IntId 8)" None]
    get_duplicates_of_resolve [of poly_hash example_cache "Some ''ab''" "Some (IntId 7)" None]
  by (simp add: example_cache_eq fingerprint_byte_hasher_2)

section \<open>The duplicate test\<close>

text \<open>
  C6. \<^verbatim>\<open>is_duplicate(doc, doc_id)\<close> is false when \<open>doc_id\<close> is not \<^verbatim>\<open>None\<close> and in
  the store. Otherwise it is true exactly when \<^verbatim>\<open>get_duplicates_of(doc)\<close>, called
  without id and without threshold, returns a set with a member other than \<open>doc_id\<close>;
  an exception of that call is passed on.
\<close>

theorem is_duplicate_cases:
  "(doc_id \<noteq> None \<and> map_of (fingerprints c) doc_id \<noteq> None \<longrightarrow>
      fst (is_duplicate H c doc doc_id) = Inr False) \<and>
   (\<not> (doc_id \<noteq> None \<and> map_of (fingerprints c) doc_id \<noteq> None) \<longrightarrow>
      (\<forall>s. fst (get_duplicates_of H c doc None None) = Inr s \<longrightarrow>
           fst (is_duplicate H c doc doc_id) = Inr (set s - {doc_id} \<noteq> {})) \<and>
      (\<forall>e. fst (get_duplicates_of H c doc None None) = Inl e \<longrightarrow>
           fst (is_duplicate H c doc doc_id) = Inl e))"
  by (auto simp: is_duplicate_def filter_empty_conv split: prod.splits sum.splits)

lemma example_duplicates_of_ax:
  "fst (get_duplicates_of poly_hash example_cache (Some ''ax'') None None)
     = Inr [Some (IntId 0), Some (IntId 8)]"
  by (simp add: example_cache_eq get_duplicates_of_def candidates_of_def eval_defs)

lemma example_duplicates_of_xy:
  "fst (get_duplicates_of poly_hash example_cache (Some ''xy'') None None) = Inr []"
  by (simp add: example_cache_eq get_duplicates_of_def candidates_of_def eval_defs)

theorem is_duplicate_cases_witness:
  "map_of (fingerprints example_cache) (Some (IntId 8)) \<noteq> None \<and>
   fst (is_duplicate poly_hash example_cache (Some ''ax'') (Some (IntId 8))) = Inr False \<and>
   map_of (fingerprints example_cache) (Some (IntId 7)) = None \<and>
   fst (is_duplicate poly_hash example_cache (Some ''ax'') (Some (IntId 7))) = Inr True \<and>
   fst (is_duplicate poly_hash example_cache (Some ''xy'') None) = Inr False \<and>
   fst (get_duplicates_of poly_hash example_cache None None None) = Inl (ValueError must_provide) \<and>
   fst (is_duplicate poly_hash example_cache None None) = Inl (ValueError must_provide)"
  using is_duplicate_cases [of "Some (IntId 8)" example_cache poly_hash "Some ''ax''"]
    is_duplicate_cases [of "Some (IntId 7)" example_cache poly_hash "Some ''ax''"]
    is_duplicate_cases [of None example_cache poly_hash "Some ''xy''"]
    is_duplicate_cases [of None example_cache poly_hash None]
    example_duplicates_of_ax example_duplicates_of_xy
  by (simp add: example_cache_eq get_duplicates_of_def)

section \<open>Sets and dictionaries\<close>

lemma set_set_add: "set (set_add s x) = insert x (set s)"
  by (auto simp: set_add_def)

lemma distinct_set_add: "distinct s \<Longrightarrow> distinct (set_add s x)"
  by (simp add: set_add_def)

lemma set_set_update: "set (set_update s xs) = set s \<union> set xs"
  unfolding set_update_def by (induction xs arbitrary: s) (auto simp: set_set_add)

lemma distinct_set_update: "distinct s \<Longrightarrow> distinct (set_update s xs)"
  unfolding set_update_def by (induction xs arbitrary: s) (auto simp: distinct_set_add)

lemma dd_getitem_bucket:
  "dd_getitem d k = (v, d') \<Longrightarrow> v = bucket_at d k \<and> bucket_at d' k' = bucket_at d k'"
  by (auto simp: dd_getitem_def bucket_at_def map_add_def split: option.splits if_splits)

lemma dd_getitem_present: "dd_getitem d k = (v, d') \<Longrightarrow> map_of d' k = Some v"
  by (auto simp: dd_getitem_def map_add_def split: option.splits)

lemma bucket_at_update:
  "bucket_at (AList.update k v d) k' = (if k' = k then v else bucket_at d k')"
  by (simp add: bucket_at_def update_conv')

subsection \<open>The loop of \<^verbatim>\<open>update\<close>\<close>

lemma add_to_bins_length: "add_to_bins H x bands bs = (e, bs') \<Longrightarrow> length bs' = length bs"
  by (induction H x bands bs rule: add_to_bins.induct)
    (auto simp: Let_def split: if_splits prod.splits)

lemma add_to_bins_error: "add_to_bins H x bands bs = (Some e, bs') \<Longrightarrow> e = IndexError"
  by (induction H x bands bs rule: add_to_bins.induct)
    (auto simp: Let_def split: if_splits prod.splits)

lemma add_to_bins_grows:
  "add_to_bins H x bands bs = (e, bs') \<Longrightarrow>
     set (bucket_at (bs ! j) k) \<subseteq> set (bucket_at (bs' ! j) k)"
proof (induction H x bands bs rule: add_to_bins.induct)
  case (1 H x bs)
  then show ?case by simp
next
  case (2 H x i b rest bs)
  show ?case
  proof (cases "i < length bs")
    case False
    with "2.prems" show ?thesis by simp
  next
    case True
    obtain v d where vd: "dd_getitem (bs ! i) (IntKey (H b)) = (v, d)"
      by (cases "dd_getitem (bs ! i) (IntKey (H b))")
    let ?bs1 = "bs[i := AList.update (IntKey (H b)) (set_add v x) d]"
    from "2.prems" True vd have rest: "add_to_bins H x rest ?bs1 = (e, bs')"
      by simp
    have "set (bucket_at (bs ! j) k) \<subseteq> set (bucket_at (?bs1 ! j) k)"
      using True dd_getitem_bucket [OF vd]
      by (cases "j = i") (auto simp: bucket_at_update set_set_add)
    also have "\<dots> \<subseteq> set (bucket_at (bs' ! j) k)"
      using "2.IH" [OF True refl refl vd [symmetric] rest] .
    finally show ?thesis .
  qed
qed

lemma add_to_bins_bounded:
  "add_to_bins H x bands bs = (e, bs') \<Longrightarrow>
     set (bucket_at (bs' ! j) k) \<subseteq> insert x (set (bucket_at (bs ! j) k))"
proof (induction H x bands bs rule: add_to_bins.induct)
  case (1 H x bs)
  then show ?case by auto
next
  case (2 H x i b rest bs)
  show ?case
  proof (cases "i < length bs")
    case False
    with "2.prems" show ?thesis by auto
  next
    case True
    obtain v d where vd: "dd_getitem (bs ! i) (IntKey (H b)) = (v, d)"
      by (cases "dd_getitem (bs ! i) (IntKey (H b))")
    let ?bs1 = "bs[i := AList.update (IntKey (H b)) (set_add v x) d]"
    from "2.prems" True vd have rest: "add_to_bins H x rest ?bs1 = (e, bs')"
      by simp
    have "set (bucket_at (bs' ! j) k) \<subseteq> insert x (set (bucket_at (?bs1 ! j) k))"
      using "2.IH" [OF True refl refl vd [symmetric] rest] .
    also have "\<dots> \<subseteq> insert x (set (bucket_at (bs ! j) k))"
      using True dd_getitem_bucket [OF vd]
      by (cases "j = i") (auto simp: bucket_at_update set_set_add)
    finally show ?thesis .
  qed
qed

lemma add_to_bins_lands:
  "add_to_bins H x bands bs = (None, bs') \<Longrightarrow> (i, b) \<in> set bands \<Longrightarrow>
     x \<in> set (bucket_at (bs' ! i) (IntKey (H b)))"
proof (induction H x bands bs rule: add_to_bins.induct)
  case (1 H x bs)
  then show ?case by simp
next
  case (2 H x i' b' rest bs)
  from "2.prems"(1) have len: "i' < length bs"
    by (auto split: if_splits)
  obtain v d where vd: "dd_getitem (bs ! i') (IntKey (H b')) = (v, d)"
    by (cases "dd_getitem (bs ! i') (IntKey (H b'))")
  let ?bs1 = "bs[i' := AList.update (IntKey (H b')) (set_add v x) d]"
  from "2.prems"(1) len vd have rest: "add_to_bins H x rest ?bs1 = (None, bs')"
    by simp
  show ?case
  proof (cases "(i, b) \<in> set rest")
    case True
    then show ?thesis using "2.IH" [OF len refl refl vd [symmetric] rest] by simp
  next
    case False
    with "2.prems"(2) have eq: "i = i'" "b = b'" by auto
    have "x \<in> set (bucket_at (?bs1 ! i') (IntKey (H b')))"
      using len by (simp add: bucket_at_update set_set_add)
    then show ?thesis
      using add_to_bins_grows [OF rest, of i' "IntKey (H b')"] eq by auto
  qed
qed


subsection \<open>The loop of \<^verbatim>\<open>get_duplicates_of\<close>\<close>

lemma collect_loop_buckets:
  "collect_loop H bands bs cand = (e, cand', bs') \<Longrightarrow>
     length bs' = length bs \<and> bucket_at (bs' ! j) k = bucket_at (bs ! j) k"
proof (induction H bands bs cand rule: collect_loop.induct)
  case (1 H bs cand)
  then show ?case by simp
next
  case (2 H i b rest bs cand)
  show ?case
  proof (cases "i < length bs")
    case False
    with "2.prems" show ?thesis by simp
  next
    case True
    obtain v d where vd: "dd_getitem (bs ! i) (IntKey (H b)) = (v, d)"
      by (cases "dd_getitem (bs ! i) (IntKey (H b))")
    from "2.prems" True vd
    have rest: "collect_loop H rest (bs[i := d]) (set_update cand v) = (e, cand', bs')"
      by simp
    from "2.IH" [OF True refl refl vd [symmetric] rest]
    have "length bs' = length bs" "bucket_at (bs' ! j) k = bucket_at ((bs[i := d]) ! j) k"
      by simp_all
    then show ?thesis
      using True dd_getitem_bucket [OF vd] by (cases "j = i") auto
  qed
qed

lemma collect_loop_members:
  "collect_loop H bands bs cand = (e, cand', bs') \<Longrightarrow>
     set cand \<subseteq> set cand' \<and>
     set cand' \<subseteq> set cand \<union> (\<Union>(i, b)\<in>set bands. set (bucket_at (bs ! i) (IntKey (H b)))) \<and>
     (e = None \<longrightarrow>
        (\<Union>(i, b)\<in>set bands. set (bucket_at (bs ! i) (IntKey (H b)))) \<subseteq> set cand')"
proof (induction H bands bs cand arbitrary: rule: collect_loop.induct)
  case (1 H bs cand)
  then show ?case by simp
next
  case (2 H i b rest bs cand)
  show ?case
  proof (cases "i < length bs")
    case False
    with "2.prems" show ?thesis by auto
  next
    case True
    obtain v d where vd: "dd_getitem (bs ! i) (IntKey (H b)) = (v, d)"
      by (cases "dd_getitem (bs ! i) (IntKey (H b))")
    from "2.prems" True vd
    have rest: "collect_loop H rest (bs[i := d]) (set_update cand v) = (e, cand', bs')"
      by simp
    have same: "bucket_at ((bs[i := d]) ! j) k = bucket_at (bs ! j) k" for j k
      using True dd_getitem_bucket [OF vd] by (cases "j = i") auto
    have v: "v = bucket_at (bs ! i) (IntKey (H b))"
      using dd_getitem_bucket [OF vd] by simp
    from "2.IH" [OF True refl refl vd [symmetric] rest] show ?thesis
      by (simp add: same set_set_update v) blast
  qed
qed


subsection \<open>The loops of \<^verbatim>\<open>get_all_duplicates\<close>\<close>

lemma set_combinations2_subset: "set (combinations2 v) \<subseteq> set v \<times> set v"
  by (induction v) auto

lemma set_bucket_loop:
  "set (bucket_loop b ks acc) =
     set acc \<union> (\<Union>k\<in>set ks. if 1 < length (bucket_at b k)
                              then set (combinations2 (bucket_at b k)) else {})"
  by (induction ks arbitrary: acc)
    (auto simp: bucket_at_def set_set_update split: option.splits if_splits)

lemma set_bins_loop:
  "set (bins_loop bs acc) =
     set acc \<union> (\<Union>b\<in>set bs. \<Union>k\<in>fst ` set b. if 1 < length (bucket_at b k)
                              then set (combinations2 (bucket_at b k)) else {})"
  by (induction bs arbitrary: acc) (auto simp: set_bucket_loop split: if_splits)

lemma bucket_at_ids: "set (bucket_at d k) \<subseteq> ids_of_dict d"
proof (cases "map_of d k")
  case None
  then show ?thesis by (simp add: bucket_at_def)
next
  case (Some v)
  then have "(k, v) \<in> set d" by (rule map_of_SomeD)
  then show ?thesis using Some by (auto simp: bucket_at_def ids_of_dict_def)
qed

lemma candidate_pairs_ids:
  "set (bins_loop bs []) \<subseteq> ids_in_buckets bs \<times> ids_in_buckets bs"
proof
  fix p assume "p \<in> set (bins_loop bs [])"
  then obtain b k where b: "b \<in> set bs" and p: "p \<in> set (combinations2 (bucket_at b k))"
    by (auto simp: set_bins_loop split: if_splits)
  from p set_combinations2_subset have "p \<in> set (bucket_at b k) \<times> set (bucket_at b k)"
    by blast
  with bucket_at_ids [of b k] b show "p \<in> ids_in_buckets bs \<times> ids_in_buckets bs"
    by (auto simp: ids_in_buckets_def)
qed

subsection \<open>The loops that compare fingerprints\<close>

lemma filter_loop_result:
  "filter_loop c ps t res = Inr r \<Longrightarrow>
     set r = set res \<union>
       {(a, b). (a, b) \<in> set ps \<and>
          (\<exists>fa fb. map_of (fingerprints c) a = Some fa \<and> map_of (fingerprints c) b = Some fb \<and>
             t < jaccard (hasher c) fa fb)}"
proof (induction c ps t res rule: filter_loop.induct)
  case (1 c t res)
  then show ?case by simp
next
  case (2 c id1 id2 ps t res)
  from "2.prems" obtain f1 f2 where f: "map_of (fingerprints c) id1 = Some f1"
    "map_of (fingerprints c) id2 = Some f2"
    by (auto split: option.splits)
  let ?res = "if t < jaccard (hasher c) f1 f2 then set_add res (id1, id2) else res"
  from "2.prems" f have "filter_loop c ps t ?res = Inr r" by simp
  from "2.IH" [OF f this] show ?case
    using f by (auto simp: set_set_add split: if_splits)
qed

lemma filter_loop_succeeds:
  "\<forall>(a, b)\<in>set ps. map_of (fingerprints c) a \<noteq> None \<and> map_of (fingerprints c) b \<noteq> None \<Longrightarrow>
     \<exists>r. filter_loop c ps t res = Inr r"
  by (induction c ps t res rule: filter_loop.induct) (auto split: option.splits)

lemma jaccard_loop_succeeds:
  "\<forall>x\<in>set xs. map_of (fingerprints c) x \<noteq> None \<Longrightarrow> \<exists>r. jaccard_loop c fp t xs res = Inr r"
  by (induction c fp t xs res rule: jaccard_loop.induct) (auto split: option.splits)

lemma known_iff_key: "map_of fps x \<noteq> None \<longleftrightarrow> x \<in> fst ` set fps"
  by (simp add: map_of_eq_None_iff)

lemma get_all_duplicates_succeeds:
  assumes "ids_in_buckets (bins c) \<subseteq> fst ` set (fingerprints c)"
  shows "\<exists>r. get_all_duplicates c (Some t) = Inr r"
proof -
  have "\<forall>(a, b)\<in>set (bins_loop (bins c) []).
          map_of (fingerprints c) a \<noteq> None \<and> map_of (fingerprints c) b \<noteq> None"
    using candidate_pairs_ids [of "bins c"] assms unfolding known_iff_key by blast
  from filter_loop_succeeds [OF this] show ?thesis
    by (simp add: get_all_duplicates_def filter_candidates_def)
qed

section \<open>Filtering by similarity\<close>

text \<open>
  C5. In every state \<^verbatim>\<open>get_all_duplicates(None)\<close> returns; whenever
  \<^verbatim>\<open>get_all_duplicates(t)\<close> returns, its pairs are among those of
  \<^verbatim>\<open>get_all_duplicates(None)\<close>, both ids of each pair have a stored fingerprint, and
  \<^verbatim>\<open>jaccard\<close> of the two stored fingerprints is strictly greater than \<open>t\<close>. It does
  return whenever every id in a bucket is a key of the store.
\<close>

theorem get_all_duplicates_filtered:
  "(\<exists>s. get_all_duplicates c None = Inr s \<and>
      (\<forall>r. get_all_duplicates c (Some t) = Inr r \<longrightarrow>
         set r \<subseteq> set s \<and>
         (\<forall>(a, b)\<in>set r. \<exists>fa fb. map_of (fingerprints c) a = Some fa \<and>
            map_of (fingerprints c) b = Some fb \<and> t < jaccard (hasher c) fa fb))) \<and>
   (ids_in_buckets (bins c) \<subseteq> fst ` set (fingerprints c) \<longrightarrow>
      (\<exists>r. get_all_duplicates c (Some t) = Inr r))"
proof -
  have "set r \<subseteq> set (bins_loop (bins c) []) \<and>
        (\<forall>(a, b)\<in>set r. \<exists>fa fb. map_of (fingerprints c) a = Some fa \<and>
            map_of (fingerprints c) b = Some fb \<and> t < jaccard (hasher c) fa fb)"
    if "get_all_duplicates c (Some t) = Inr r" for r
  proof -
    from that have "filter_loop c (bins_loop (bins c) []) t [] = Inr r"
      by (simp add: get_all_duplicates_def filter_candidates_def)
    from filter_loop_result [OF this] show ?thesis by auto
  qed
  then show ?thesis
    using get_all_duplicates_succeeds [of c t] by (auto simp: get_all_duplicates_def)
qed

lemma example_all_duplicates:
  "get_all_duplicates example_cache None =
     Inr [(Some (IntId 0), Some (IntId 8)), (Some (IntId 8), Some (IntId 0))]"
  by (simp add: example_cache_eq get_all_duplicates_def set_update_def set_add_def)

lemma example_filtered_duplicates:
  "get_all_duplicates example_cache (Some (1 / 4)) =
     Inr [(Some (IntId 0), Some (IntId 8)), (Some (IntId 8), Some (IntId 0))]"
  by (simp add: example_cache_eq get_all_duplicates_def set_update_def set_add_def
      filter_candidates_def jaccard_byte_hasher)

lemma example_covered:
  "ids_in_buckets (bins example_cache) \<subseteq> fst ` set (fingerprints example_cache)"
  by (simp add: example_cache_eq ids_in_buckets_def ids_of_dict_def)

theorem get_all_duplicates_filtered_witness:
  "ids_in_buckets (bins example_cache) \<subseteq> fst ` set (fingerprints example_cache) \<and>
   get_all_duplicates example_cache (Some (1 / 4)) =
     Inr [(Some (IntId 0), Some (IntId 8)), (Some (IntId 8), Some (IntId 0))] \<and>
   (\<exists>s. get_all_duplicates example_cache None = Inr s \<and>
      set [(Some (IntId 0), Some (IntId 8)), (Some (IntId 8), Some (IntId 0))] \<subseteq> set s \<and>
      (\<forall>(a, b)\<in>set [(Some (IntId 0), Some (IntId 8)), (Some (IntId 8), Some (IntId 0))].
         \<exists>fa fb. map_of (fingerprints example_cache) a = Some fa \<and>
           map_of (fingerprints example_cache) b = Some fb \<and>
           1 / 4 < jaccard (hasher example_cache) fa fb))"
  using get_all_duplicates_filtered [of example_cache "1 / 4"]
    example_filtered_duplicates example_covered
  by auto

section \<open>Bucket members are registered\<close>

lemma ids_in_buckets_replicate: "ids_in_buckets (replicate n []) = {}"
  by (auto simp: ids_in_buckets_def ids_of_dict_def)

lemma set_AList_update: "set (AList.update k v d) \<subseteq> insert (k, v) (set d)"
  by (induction d) auto

lemma ids_of_dict_update: "ids_of_dict (AList.update k v d) \<subseteq> set v \<union> ids_of_dict d"
  using set_AList_update [of k v d] by (fastforce simp: ids_of_dict_def)

lemma dd_getitem_ids:
  "dd_getitem d k = (v, d') \<Longrightarrow> ids_of_dict d' = ids_of_dict d \<and> set v \<subseteq> ids_of_dict d"
proof (cases "map_of d k")
  case None
  assume "dd_getitem d k = (v, d')"
  with None have "v = []" "d' = d @ [(k, [])]" by (simp_all add: dd_getitem_def)
  then show ?thesis by (simp add: ids_of_dict_def)
next
  case (Some w)
  assume "dd_getitem d k = (v, d')"
  with Some have "v = bucket_at d k" "d' = d" by (simp_all add: dd_getitem_def bucket_at_def)
  then show ?thesis using bucket_at_ids [of d k] by simp
qed

lemma ids_in_buckets_list_update:
  "ids_in_buckets (bs[i := d]) \<subseteq> ids_of_dict d \<union> ids_in_buckets bs"
  using set_update_subset_insert [of bs i d] by (auto simp: ids_in_buckets_def)

lemma nth_ids_in_buckets: "i < length bs \<Longrightarrow> ids_of_dict (bs ! i) \<subseteq> ids_in_buckets bs"
  unfolding ids_in_buckets_def by (blast intro: nth_mem)

lemma add_to_bins_ids:
  "add_to_bins H x bands bs = (e, bs') \<Longrightarrow> ids_in_buckets bs' \<subseteq> insert x (ids_in_buckets bs)"
proof (induction H x bands bs rule: add_to_bins.induct)
  case (1 H x bs)
  then show ?case by auto
next
  case (2 H x i b rest bs)
  show ?case
  proof (cases "i < length bs")
    case False
    with "2.prems" show ?thesis by auto
  next
    case True
    obtain v d where vd: "dd_getitem (bs ! i) (IntKey (H b)) = (v, d)"
      by (cases "dd_getitem (bs ! i) (IntKey (H b))")
    let ?d1 = "AList.update (IntKey (H b)) (set_add v x) d"
    from "2.prems" True vd have rest: "add_to_bins H x rest (bs[i := ?d1]) = (e, bs')"
      by simp
    have "ids_of_dict ?d1 \<subseteq> insert x (ids_of_dict (bs ! i))"
      using ids_of_dict_update [of "IntKey (H b)" "set_add v x" d] dd_getitem_ids [OF vd]
      by (auto simp: set_set_add)
    with nth_ids_in_buckets [OF True]
    have "ids_of_dict ?d1 \<subseteq> insert x (ids_in_buckets bs)" by blast
    with ids_in_buckets_list_update [of bs i ?d1]
    have "ids_in_buckets (bs[i := ?d1]) \<subseteq> insert x (ids_in_buckets bs)" by blast
    with "2.IH" [OF True refl refl vd [symmetric] rest] show ?thesis by blast
  qed
qed

lemma update_fields:
  "update H c doc x = (e, l, c') \<Longrightarrow>
     hasher c' = hasher c \<and> num_bands c' = num_bands c \<and> band_width c' = band_width c \<and>
     length (bins c') = length (bins c) \<and>
     fingerprints c' = AList.update x (fingerprint (hasher c) doc) (fingerprints c)"
  by (auto simp: update_def Let_def split: sum.splits prod.splits dest: add_to_bins_length)

lemma update_ids:
  "update H c doc x = (e, l, c') \<Longrightarrow> ids_in_buckets (bins c') \<subseteq> insert x (ids_in_buckets (bins c))"
proof (cases "bins' (c\<lparr>fingerprints := AList.update x (fingerprint (hasher c) doc) (fingerprints c)\<rparr>)
    (fingerprint (hasher c) doc)")
  case (Inl err)
  assume "update H c doc x = (e, l, c')"
  with Inl have "bins c' = bins c" by (auto simp: update_def Let_def)
  then show ?thesis by auto
next
  case (Inr bands)
  assume "update H c doc x = (e, l, c')"
  with Inr have "add_to_bins H x bands (bins c) = (e, bins c')"
    by (auto simp: update_def Let_def split: prod.splits)
  then show ?thesis by (rule add_to_bins_ids)
qed

lemma update_covered:
  assumes "ids_in_buckets (bins c) \<subseteq> fst ` set (fingerprints c)"
  shows "ids_in_buckets (bins (snd (snd (update H c doc x))))
           \<subseteq> fst ` set (fingerprints (snd (snd (update H c doc x))))"
proof -
  obtain e l c' where u: "update H c doc x = (e, l, c')"
    by (cases "update H c doc x")
  from update_fields [OF u]
  have "fst ` set (fingerprints c') = insert x (fst ` set (fingerprints c))"
    by (simp add: dom_update)
  with update_ids [OF u] assms show ?thesis by (auto simp: u)
qed

lemma run_covered:
  "ids_in_buckets (bins c) \<subseteq> fst ` set (fingerprints c) \<Longrightarrow>
     ids_in_buckets (bins (run H c calls)) \<subseteq> fst ` set (fingerprints (run H c calls))"
proof (induction H c calls rule: run.induct)
  case (1 H c)
  then show ?case by simp
next
  case (2 H c doc doc_id cs)
  then show ?case by (simp add: update_covered)
next
  case (3 H c cs)
  then show ?case by (simp add: clear_def ids_in_buckets_replicate)
qed

lemma collect_loop_in_range:
  "collect_loop H bands bs cand = (None, cand', bs') \<Longrightarrow> \<forall>(i, b)\<in>set bands. i < length bs"
proof (induction H bands bs cand rule: collect_loop.induct)
  case (1 H bs cand)
  then show ?case by simp
next
  case (2 H i b rest bs cand)
  from "2.prems" have len: "i < length bs" by (auto split: if_splits)
  obtain v d where vd: "dd_getitem (bs ! i) (IntKey (H b)) = (v, d)"
    by (cases "dd_getitem (bs ! i) (IntKey (H b))")
  from "2.prems" len vd
  have "collect_loop H rest (bs[i := d]) (set_update cand v) = (None, cand', bs')"
    by simp
  from "2.IH" [OF len refl refl vd [symmetric] this] len show ?case by simp
qed

lemma collect_loop_ids:
  assumes "collect_loop H bands bs [] = (None, cand, bs')"
  shows "set cand \<subseteq> ids_in_buckets bs"
proof
  fix x assume "x \<in> set cand"
  with collect_loop_members [OF assms]
  obtain i b where ib: "(i, b) \<in> set bands" and x: "x \<in> set (bucket_at (bs ! i) (IntKey (H b)))"
    by auto
  from collect_loop_in_range [OF assms] ib have "i < length bs" by auto
  with x bucket_at_ids [of "bs ! i"] nth_ids_in_buckets [of i bs] show "x \<in> ids_in_buckets bs"
    by blast
qed

lemma candidates_of_no_KeyError:
  assumes "ids_in_buckets (bins c) \<subseteq> fst ` set (fingerprints c)"
  shows "fst (candidates_of H c fp mj) \<noteq> Inl KeyError"
proof (cases "bins' c fp")
  case (Inl e)
  with bins'_error [OF Inl] show ?thesis by (simp add: candidates_of_def)
next
  case (Inr bands)
  obtain e cand bs where cl: "collect_loop H bands (bins c) [] = (e, cand, bs)"
    by (cases "collect_loop H bands (bins c) []")
  show ?thesis
  proof (cases e)
    case (Some err)
    with cl collect_loop_error [of H bands "bins c" "[]" err] Inr show ?thesis
      by (simp add: candidates_of_def)
  next
    case None
    show ?thesis
    proof (cases mj)
      case None
      with Inr cl \<open>e = None\<close> show ?thesis by (simp add: candidates_of_def)
    next
      case (Some t)
      from cl \<open>e = None\<close> collect_loop_ids assms
      have "\<forall>x\<in>set cand. map_of (fingerprints (c\<lparr>bins := bs\<rparr>)) x \<noteq> None"
        unfolding known_iff_key by fastforce
      from jaccard_loop_succeeds [OF this]
      obtain r where "jaccard_loop (c\<lparr>bins := bs\<rparr>) fp t cand [] = Inr r" by blast
      with Inr cl \<open>e = None\<close> Some show ?thesis by (simp add: candidates_of_def)
    qed
  qed
qed

lemma get_duplicates_of_no_KeyError:
  assumes "ids_in_buckets (bins c) \<subseteq> fst ` set (fingerprints c)"
  shows "fst (get_duplicates_of H c doc doc_id mj) \<noteq> Inl KeyError"
  using candidates_of_no_KeyError [OF assms]
  by (auto simp: get_duplicates_of_def split: option.splits)

text \<open>
  C10. In every state that a constructed cache reaches through \<^verbatim>\<open>update\<close> and
  \<^verbatim>\<open>clear\<close> calls, every id in a bucket is a key of the fingerprint store. Hence
  \<^verbatim>\<open>get_all_duplicates\<close> with a threshold returns, and \<^verbatim>\<open>get_duplicates_of\<close> never
  raises the KeyError of a missing fingerprint.
\<close>

theorem reachable_buckets_registered:
  "Cache_init h nb = Inr c0 \<Longrightarrow>
     ids_in_buckets (bins (run H c0 calls)) \<subseteq> fst ` set (fingerprints (run H c0 calls)) \<and>
     (\<exists>r. get_all_duplicates (run H c0 calls) (Some t) = Inr r) \<and>
     fst (get_duplicates_of H (run H c0 calls) doc doc_id mj) \<noteq> Inl KeyError"
proof -
  assume "Cache_init h nb = Inr c0"
  then have "ids_in_buckets (bins c0) \<subseteq> fst ` set (fingerprints c0)"
    by (auto simp: Cache_init_def ids_in_buckets_replicate split: if_splits)
  then have "ids_in_buckets (bins (run H c0 calls)) \<subseteq> fst ` set (fingerprints (run H c0 calls))"
    by (rule run_covered)
  then show ?thesis
    using get_all_duplicates_succeeds get_duplicates_of_no_KeyError by blast
qed

theorem reachable_buckets_registered_witness:
  "Cache_init (byte_hasher 2) 2 = Inr empty_cache \<and>
   ids_in_buckets (bins example_cache) \<subseteq> fst ` set (fingerprints example_cache) \<and>
   (\<exists>r. get_all_duplicates example_cache (Some (1 / 4)) = Inr r) \<and>
   fst (get_duplicates_of poly_hash example_cache None (Some (IntId 0)) (Some (1 / 4)))
     \<noteq> Inl KeyError"
  using reachable_buckets_registered [OF Cache_init_example, of poly_hash example_calls "1 / 4"
      None "Some (IntId 0)" "Some (1 / 4)"] Cache_init_example
  by (simp add: example_cache_def)

section \<open>Registering a document twice\<close>

lemma dd_getitem_other: "dd_getitem d k = (v, d') \<Longrightarrow> k' \<noteq> k \<Longrightarrow> map_of d' k' = map_of d k'"
  by (auto simp: dd_getitem_def map_add_def split: option.splits)

lemma dd_getitem_hit: "map_of d k = Some v \<Longrightarrow> dd_getitem d k = (v, d)"
  by (simp add: dd_getitem_def)

lemma add_to_bins_keeps:
  "add_to_bins H x bands bs = (e, bs') \<Longrightarrow> map_of (bs ! j) k = Some v \<Longrightarrow> x \<in> set v \<Longrightarrow>
     \<exists>v'. map_of (bs' ! j) k = Some v' \<and> x \<in> set v'"
proof (induction H x bands bs arbitrary: v rule: add_to_bins.induct)
  case (1 H x bs)
  then show ?case by simp
next
  case (2 H x i b rest bs)
  show ?case
  proof (cases "i < length bs")
    case False
    with "2.prems" show ?thesis by simp
  next
    case True
    obtain w d where wd: "dd_getitem (bs ! i) (IntKey (H b)) = (w, d)"
      by (cases "dd_getitem (bs ! i) (IntKey (H b))")
    let ?bs1 = "bs[i := AList.update (IntKey (H b)) (set_add w x) d]"
    from "2.prems"(1) True wd have rest: "add_to_bins H x rest ?bs1 = (e, bs')"
      by simp
    have "\<exists>v1. map_of (?bs1 ! j) k = Some v1 \<and> x \<in> set v1"
    proof (cases "j = i")
      case False
      with "2.prems" show ?thesis by simp
    next
      case ji: True
      show ?thesis
      proof (cases "k = IntKey (H b)")
        case True
        with ji \<open>i < length bs\<close> show ?thesis
          by (simp add: update_conv' set_set_add)
      next
        case False
        with ji \<open>i < length bs\<close> dd_getitem_other [OF wd False] "2.prems"(2,3) show ?thesis
          by (simp add: update_conv')
      qed
    qed
    then obtain v1 where "map_of (?bs1 ! j) k = Some v1" "x \<in> set v1" by blast
    from "2.IH" [OF True refl refl wd [symmetric] rest this] show ?thesis .
  qed
qed

lemma add_to_bins_idem:
  "add_to_bins H x bands bs = (e, bs') \<Longrightarrow> add_to_bins H x bands bs' = (e, bs')"
proof (induction H x bands bs rule: add_to_bins.induct)
  case (1 H x bs)
  then show ?case by simp
next
  case (2 H x i b rest bs)
  have len: "length bs' = length bs"
    using add_to_bins_length [OF "2.prems"] .
  show ?case
  proof (cases "i < length bs")
    case False
    with "2.prems" len show ?thesis by simp
  next
    case True
    obtain w d where wd: "dd_getitem (bs ! i) (IntKey (H b)) = (w, d)"
      by (cases "dd_getitem (bs ! i) (IntKey (H b))")
    let ?k = "IntKey (H b)"
    let ?bs1 = "bs[i := AList.update ?k (set_add w x) d]"
    from "2.prems" True wd have rest: "add_to_bins H x rest ?bs1 = (e, bs')"
      by simp
    have "map_of (?bs1 ! i) ?k = Some (set_add w x)" "x \<in> set (set_add w x)"
      using True by (simp_all add: update_conv' set_set_add)
    from add_to_bins_keeps [OF rest this]
    obtain v' where v': "map_of (bs' ! i) ?k = Some v'" "x \<in> set v'" by blast
    then have "AList.update ?k (set_add v' x) (bs' ! i) = bs' ! i"
      by (simp add: set_add_def update_triv)
    then have "bs'[i := AList.update ?k (set_add v' x) (bs' ! i)] = bs'"
      by simp
    with dd_getitem_hit [OF v'(1)] True len "2.IH" [OF True refl refl wd [symmetric] rest]
    show ?thesis by simp
  qed
qed

lemma buckets_distinct_step:
  assumes "buckets_distinct bs" and "i < length bs" and "dd_getitem (bs ! i) k = (v, d)"
  shows "buckets_distinct (bs[i := AList.update k (set_add v x) d])"
proof -
  from assms(1,2) have old: "\<forall>(k', v')\<in>set (bs ! i). distinct v'"
    unfolding buckets_distinct_def using nth_mem by blast
  have d: "\<forall>(k', v')\<in>set d. distinct v'"
    using assms(3) old by (auto simp: dd_getitem_def split: option.splits)
  have "distinct v"
    using assms(3) old by (auto simp: dd_getitem_def split: option.splits dest!: map_of_SomeD)
  then have "\<forall>(k', v')\<in>set (AList.update k (set_add v x) d). distinct v'"
    using d set_AList_update [of k "set_add v x" d] by (auto simp: distinct_set_add)
  with assms(1) set_update_subset_insert [of bs i "AList.update k (set_add v x) d"]
  show ?thesis unfolding buckets_distinct_def by blast
qed

lemma add_to_bins_distinct:
  "add_to_bins H x bands bs = (e, bs') \<Longrightarrow> buckets_distinct bs \<Longrightarrow> buckets_distinct bs'"
proof (induction H x bands bs rule: add_to_bins.induct)
  case (1 H x bs)
  then show ?case by simp
next
  case (2 H x i b rest bs)
  show ?case
  proof (cases "i < length bs")
    case False
    with "2.prems" show ?thesis by simp
  next
    case True
    obtain w d where wd: "dd_getitem (bs ! i) (IntKey (H b)) = (w, d)"
      by (cases "dd_getitem (bs ! i) (IntKey (H b))")
    from "2.prems"(1) True wd
    have rest: "add_to_bins H x rest (bs[i := AList.update (IntKey (H b)) (set_add w x) d]) = (e, bs')"
      by simp
    from "2.IH" [OF True refl refl wd [symmetric] rest buckets_distinct_step [OF "2.prems"(2) True wd]]
    show ?thesis .
  qed
qed

lemma distinct_bucket_at: "buckets_distinct bs \<Longrightarrow> i < length bs \<Longrightarrow> distinct (bucket_at (bs ! i) k)"
proof (cases "map_of (bs ! i) k")
  case None
  then show ?thesis by (simp add: bucket_at_def)
next
  case (Some v)
  assume "buckets_distinct bs" "i < length bs"
  moreover from Some have "(k, v) \<in> set (bs ! i)" by (rule map_of_SomeD)
  ultimately have "distinct v" unfolding buckets_distinct_def using nth_mem by blast
  with Some show ?thesis by (simp add: bucket_at_def)
qed

lemma count_list_distinct: "distinct v \<Longrightarrow> x \<in> set v \<Longrightarrow> count_list v x = 1"
  by (induction v) auto

lemma add_to_bins_in_range:
  "add_to_bins H x bands bs = (None, bs') \<Longrightarrow> (i, b) \<in> set bands \<Longrightarrow> i < length bs"
proof (induction H x bands bs rule: add_to_bins.induct)
  case (1 H x bs)
  then show ?case by simp
next
  case (2 H x i' b' rest bs)
  from "2.prems"(1) have len: "i' < length bs" by (auto split: if_splits)
  obtain w d where wd: "dd_getitem (bs ! i') (IntKey (H b')) = (w, d)"
    by (cases "dd_getitem (bs ! i') (IntKey (H b'))")
  from "2.prems"(1) len wd
  have rest: "add_to_bins H x rest (bs[i' := AList.update (IntKey (H b')) (set_add w x) d]) = (None, bs')"
    by simp
  show ?case
  proof (cases "(i, b) \<in> set rest")
    case True
    from "2.IH" [OF len refl refl wd [symmetric] rest True] show ?thesis by simp
  next
    case False
    with "2.prems"(2) len show ?thesis by auto
  qed
qed

lemma bins'_fingerprints_update [simp]: "bins' (c\<lparr>fingerprints := f\<rparr>) fp = bins' c fp"
  by (simp add: bins'_def)

lemma bins'_bins_update [simp]: "bins' (c\<lparr>bins := bs\<rparr>) fp = bins' c fp"
  by (simp add: bins'_def)

text \<open>
  C9, as amended. A second \<^verbatim>\<open>update(doc, doc_id)\<close> with the arguments of the first
  leaves the cache as the first call left it, so every bucket keeps its members, and it
  ends as the first call ended. It logs the warning "Duplicate id" when \<open>doc_id\<close> is an
  int, and nothing when it is \<^verbatim>\<open>None\<close>. When the buckets held no id twice before and
  the first call raised nothing, the id occurs exactly once in the bucket of each band of
  the document's fingerprint.
\<close>

theorem update_twice:
  assumes "update H c doc x = (e1, l1, c1)"
    and "update H c1 doc x = (e2, l2, c2)"
  shows "c2 = c1 \<and> e2 = e1 \<and>
    (\<forall>i. x = Some (IntId i) \<longrightarrow> l2 = [Warning ''Duplicate id %d'' i]) \<and>
    (x = None \<longrightarrow> l2 = []) \<and>
    (\<forall>j k. set (bucket_at (bins c2 ! j) k) = set (bucket_at (bins c1 ! j) k)) \<and>
    (buckets_distinct (bins c) \<and> e1 = None \<longrightarrow>
       (\<forall>bands. bins' c (fingerprint (hasher c) doc) = Inr bands \<longrightarrow>
          (\<forall>(i, b)\<in>set bands.
             count_list (bucket_at (bins c2 ! i) (IntKey (H b))) x = 1)))"
proof -
  let ?fp = "fingerprint (hasher c) doc"
  let ?f1 = "AList.update x ?fp (fingerprints c)"
  have main: "c2 = c1 \<and> e2 = e1 \<and>
    l2 = (case x of None \<Rightarrow> [] | Some d \<Rightarrow> [logging_warning ''Duplicate id %d'' d]) \<and>
    (buckets_distinct (bins c) \<and> e1 = None \<longrightarrow>
       (\<forall>bands. bins' c ?fp = Inr bands \<longrightarrow>
          (\<forall>(i, b)\<in>set bands. count_list (bucket_at (bins c1 ! i) (IntKey (H b))) x = 1)))"
  proof (cases "bins' c ?fp")
    case (Inl err)
    with assms(1) have c1: "c1 = c\<lparr>fingerprints := ?f1\<rparr>" "e1 = Some err"
      by (simp_all add: update_def Let_def)
    with Inl assms(2) show ?thesis
      by (auto simp: update_def Let_def update_conv' split: option.splits)
  next
    case (Inr bands)
    obtain e bs where ab: "add_to_bins H x bands (bins c) = (e, bs)"
      by (cases "add_to_bins H x bands (bins c)")
    with Inr assms(1) have c1: "c1 = c\<lparr>fingerprints := ?f1, bins := bs\<rparr>" "e1 = e"
      by (simp_all add: update_def Let_def)
    from add_to_bins_idem [OF ab] Inr assms(2) c1
    have same: "c2 = c1 \<and> e2 = e1 \<and>
      l2 = (case x of None \<Rightarrow> [] | Some d \<Rightarrow> [logging_warning ''Duplicate id %d'' d])"
      by (auto simp: update_def Let_def update_conv' split: option.splits)
    have "count_list (bucket_at (bs ! i) (IntKey (H b))) x = 1"
      if "buckets_distinct (bins c)" "e = None" "(i, b) \<in> set bands" for i b
    proof -
      from ab that have "i < length bs"
        using add_to_bins_in_range add_to_bins_length by metis
      with add_to_bins_distinct [OF ab that(1)]
      have "distinct (bucket_at (bs ! i) (IntKey (H b)))" by (rule distinct_bucket_at)
      moreover from ab that have "x \<in> set (bucket_at (bs ! i) (IntKey (H b)))"
        using add_to_bins_lands by metis
      ultimately show ?thesis by (rule count_list_distinct)
    qed
    with same Inr c1 show ?thesis by auto
  qed
  then show ?thesis by (auto split: option.splits)
qed

lemma example_cache_xy_eq:
  "example_cache_xy =
     \<lparr>bins = [[(IntKey 314, [Some (IntId 0), Some (IntId 8)]), (IntKey 317, [Some (IntId 0)]),
               (IntKey 337, [Some (IntId 5)])],
              [(IntKey 315, [Some (IntId 0)]), (IntKey 316, [Some (IntId 8), Some (IntId 0)]),
               (IntKey 338, [Some (IntId 5)])]],
      hasher = byte_hasher 2, band_width = 1, num_bands = 2,
      fingerprints = [(Some (IntId 0), [100, 99]), (Some (IntId 8), [97, 99]),
                      (Some (IntId 5), [120, 121])]\<rparr>"
  by (simp add: example_cache_xy_def example_calls_def empty_cache_def eval_defs)

lemma example_update_xy:
  "update poly_hash example_cache ''xy'' (Some (IntId 5)) = (None, [], example_cache_xy)"
  by (simp add: example_cache_xy_eq example_cache_eq eval_defs)

lemma example_update_xy_again:
  "update poly_hash example_cache_xy ''xy'' (Some (IntId 5)) =
     (None, [Warning ''Duplicate id %d'' 5], example_cache_xy)"
  by (simp add: example_cache_xy_eq eval_defs)

lemma none_id_cache_eq:
  "none_id_cache =
     \<lparr>bins = [[(IntKey 314, [None])], [(IntKey 315, [None])]],
      hasher = byte_hasher 2, band_width = 1, num_bands = 2,
      fingerprints = [(None, [97, 98])]\<rparr>"
  by (simp add: none_id_cache_def empty_cache_def eval_defs)

lemma example_update_None:
  "update poly_hash empty_cache ''ab'' None = (None, [], none_id_cache)"
  by (simp add: none_id_cache_eq) (simp add: empty_cache_def eval_defs)

lemma example_update_None_again:
  "update poly_hash none_id_cache ''ab'' None = (None, [], none_id_cache)"
  by (simp add: none_id_cache_eq eval_defs)

theorem update_twice_witness:
  "update poly_hash example_cache ''xy'' (Some (IntId 5)) = (None, [], example_cache_xy) \<and>
   update poly_hash example_cache_xy ''xy'' (Some (IntId 5)) =
     (None, [Warning ''Duplicate id %d'' 5], example_cache_xy) \<and>
   buckets_distinct (bins example_cache) \<and>
   bins' example_cache (fingerprint (hasher example_cache) ''xy'') = Inr [(0, [120]), (1, [121])] \<and>
   count_list (bucket_at (bins example_cache_xy ! 0) (IntKey (poly_hash [120]))) (Some (IntId 5)) = 1 \<and>
   count_list (bucket_at (bins example_cache_xy ! 1) (IntKey (poly_hash [121]))) (Some (IntId 5)) = 1 \<and>
   update poly_hash empty_cache ''ab'' None = (None, [], none_id_cache) \<and>
   update poly_hash none_id_cache ''ab'' None = (None, [], none_id_cache)"
proof -
  have d: "buckets_distinct (bins example_cache)"
    by (simp add: example_cache_eq buckets_distinct_def)
  have b: "bins' example_cache (fingerprint (hasher example_cache) ''xy'') = Inr [(0, [120]), (1, [121])]"
    by (simp add: example_cache_eq eval_defs)
  from update_twice [OF example_update_xy example_update_xy_again] d b
    update_twice [OF example_update_None example_update_None_again]
  show ?thesis
    using example_update_xy example_update_xy_again example_update_None example_update_None_again
    by auto
qed

text \<open>
  With a str id the second call reaches the warning as well, but \<^verbatim>\<open>%d\<close> cannot format
  a str: the call leaves a logging error and no warning.
\<close>

lemma update_str_id_twice:
  "fst (snd (update poly_hash (snd (snd (update poly_hash empty_cache ''ab'' (Some (StrId ''x'')))))
     ''ab'' (Some (StrId ''x'')))) = [LoggingError]"
  by (simp add: empty_cache_def eval_defs)

text \<open>
  C9 as stated fails for the id \<^verbatim>\<open>None\<close>, which \<^verbatim>\<open>update\<close> accepts and stores: the
  second call logs nothing.
\<close>

theorem update_None_twice:
  "update poly_hash empty_cache ''ab'' None = (None, [], none_id_cache) \<and>
   update poly_hash none_id_cache ''ab'' None = (None, [], none_id_cache)"
  by (simp add: none_id_cache_eq) (simp add: empty_cache_def eval_defs)

section \<open>Banding\<close>















section \<open>All candidate pairs\<close>

lemma set_combinations2:
  "set (combinations2 v) = {(v ! i, v ! j) | i j. i < j \<and> j < length v}"
proof (induction v)
  case Nil
  then show ?case by simp
next
  case (Cons x xs)
  have "{((x # xs) ! i, (x # xs) ! j) | i j. i < j \<and> j < length (x # xs)} =
        Pair x ` set xs \<union> {(xs ! i, xs ! j) | i j. i < j \<and> j < length xs}" (is "?L = ?A \<union> ?B")
  proof (intro equalityI subsetI)
    fix p assume "p \<in> ?L"
    then obtain i j where p: "p = ((x # xs) ! i, (x # xs) ! j)" and ij: "i < j" "j < Suc (length xs)"
      by auto
    from ij obtain j' where j': "j = Suc j'" "j' < length xs" by (cases j) auto
    show "p \<in> ?A \<union> ?B"
    proof (cases i)
      case 0
      with p j' show ?thesis by auto
    next
      case (Suc i')
      with p j' ij have "p = (xs ! i', xs ! j')" "i' < j'" by auto
      with j' show ?thesis by blast
    qed
  next
    fix p assume "p \<in> ?A \<union> ?B"
    then show "p \<in> ?L"
    proof
      assume "p \<in> ?A"
      then obtain j where "j < length xs" "p = (x, xs ! j)"
        by (auto simp: in_set_conv_nth)
      then have "p = ((x # xs) ! 0, (x # xs) ! Suc j)" "0 < Suc j" "Suc j < length (x # xs)"
        by simp_all
      then show ?thesis by blast
    next
      assume "p \<in> ?B"
      then obtain i j where "p = (xs ! i, xs ! j)" "i < j" "j < length xs" by blast
      then have "p = ((x # xs) ! Suc i, (x # xs) ! Suc j)" "Suc i < Suc j" "Suc j < length (x # xs)"
        by simp_all
      then show ?thesis by blast
    qed
  qed
  with Cons show ?case by simp
qed

lemma distinct_bucket_loop: "distinct acc \<Longrightarrow> distinct (bucket_loop b ks acc)"
  by (induction ks arbitrary: acc) (auto simp: distinct_set_update split: option.splits)

lemma distinct_bins_loop: "distinct acc \<Longrightarrow> distinct (bins_loop bs acc)"
  by (induction bs arbitrary: acc) (auto simp: distinct_bucket_loop)

lemma candidate_pairs_iff:
  "p \<in> set (bins_loop bs []) \<longleftrightarrow>
     (\<exists>d\<in>set bs. \<exists>k v. map_of d k = Some v \<and> p \<in> set (combinations2 v))"
proof
  assume "p \<in> set (bins_loop bs [])"
  then obtain d k where d: "d \<in> set bs" and p: "p \<in> set (combinations2 (bucket_at d k))"
    by (auto simp: set_bins_loop split: if_splits)
  then have "bucket_at d k \<noteq> []" by auto
  then obtain v where "map_of d k = Some v" "bucket_at d k = v"
    by (cases "map_of d k") (auto simp: bucket_at_def)
  with d p show "\<exists>d\<in>set bs. \<exists>k v. map_of d k = Some v \<and> p \<in> set (combinations2 v)"
    by blast
next
  assume "\<exists>d\<in>set bs. \<exists>k v. map_of d k = Some v \<and> p \<in> set (combinations2 v)"
  then obtain d k v where d: "d \<in> set bs" and v: "map_of d k = Some v"
    and p: "p \<in> set (combinations2 v)"
    by blast
  from v have k: "k \<in> fst ` set d"
    by (metis domI dom_map_of_conv_image_fst)
  from p have "1 < length v"
    unfolding set_combinations2 by auto
  with v p have "p \<in> (if 1 < length (bucket_at d k) then set (combinations2 (bucket_at d k)) else {})"
    by (simp add: bucket_at_def)
  with d k show "p \<in> set (bins_loop bs [])"
    unfolding set_bins_loop by blast
qed

text \<open>
  What \<^verbatim>\<open>get_all_duplicates(None)\<close> returns: each tuple once, the tuples \<open>(a, b)\<close> for
  which some bucket lists \<open>a\<close> before \<open>b\<close>. When the buckets are sets, the two ids of a
  tuple differ; and of two different ids in one bucket at least one of \<open>(a, b)\<close> and
  \<open>(b, a)\<close> is returned. Nothing makes the tuples of two buckets agree on the order.
\<close>

lemma get_all_duplicates_tuples:
  "\<exists>s. get_all_duplicates c None = Inr s \<and> distinct s \<and>
     set s = {(v ! i, v ! j) | v i j d k.
                d \<in> set (bins c) \<and> map_of d k = Some v \<and> i < j \<and> j < length v} \<and>
     (buckets_distinct (bins c) \<longrightarrow> (\<forall>(a, b)\<in>set s. a \<noteq> b)) \<and>
     (\<forall>d\<in>set (bins c). \<forall>k. \<forall>a\<in>set (bucket_at d k). \<forall>b\<in>set (bucket_at d k).
        a \<noteq> b \<longrightarrow> (a, b) \<in> set s \<or> (b, a) \<in> set s)"
proof -
  let ?s = "bins_loop (bins c) []"
  have s: "set ?s = {(v ! i, v ! j) | v i j d k.
                d \<in> set (bins c) \<and> map_of d k = Some v \<and> i < j \<and> j < length v}"
  proof (intro equalityI subsetI)
    fix p assume "p \<in> set ?s"
    then obtain d k v where "d \<in> set (bins c)" "map_of d k = Some v" "p \<in> set (combinations2 v)"
      unfolding candidate_pairs_iff by blast
    then show "p \<in> {(v ! i, v ! j) | v i j d k.
                d \<in> set (bins c) \<and> map_of d k = Some v \<and> i < j \<and> j < length v}"
      unfolding set_combinations2 by blast
  next
    fix p assume "p \<in> {(v ! i, v ! j) | v i j d k.
                d \<in> set (bins c) \<and> map_of d k = Some v \<and> i < j \<and> j < length v}"
    then obtain v i j d k where "p = (v ! i, v ! j)" "d \<in> set (bins c)" "map_of d k = Some v"
      "i < j" "j < length v"
      by blast
    then have "d \<in> set (bins c)" "map_of d k = Some v" "p \<in> set (combinations2 v)"
      unfolding set_combinations2 by blast+
    then show "p \<in> set ?s"
      unfolding candidate_pairs_iff by blast
  qed
  have ne: "a \<noteq> b" if "buckets_distinct (bins c)" "(a, b) \<in> set ?s" for a b
  proof -
    from that(2) obtain v i j d k where ab: "a = v ! i" "b = v ! j"
      and d: "d \<in> set (bins c)" "map_of d k = Some v" and ij: "i < j" "j < length v"
      unfolding s by blast
    from d have "(k, v) \<in> set d" by (simp add: map_of_SomeD)
    with that(1) d(1) have "distinct v"
      unfolding buckets_distinct_def by blast
    with ij ab show ?thesis
      by (simp add: nth_eq_iff_index_eq)
  qed
  have one: "(a, b) \<in> set ?s \<or> (b, a) \<in> set ?s"
    if "d \<in> set (bins c)" "a \<in> set (bucket_at d k)" "b \<in> set (bucket_at d k)" "a \<noteq> b"
    for d k a b
  proof -
    from that(2) obtain v where v: "map_of d k = Some v" "bucket_at d k = v"
      by (cases "map_of d k") (auto simp: bucket_at_def)
    with that(2,3) obtain i j where ij: "i < length v" "j < length v" "a = v ! i" "b = v ! j"
      by (auto simp: in_set_conv_nth)
    with that(4) have "i < j \<or> j < i" by (cases i j rule: linorder_cases) auto
    with ij v that(1) show ?thesis
      unfolding s by blast
  qed
  have dist: "distinct ?s" by (simp add: distinct_bins_loop)
  have ret: "get_all_duplicates c None = Inr ?s"
    by (simp add: get_all_duplicates_def)
  show ?thesis
  proof (intro exI [of _ ?s] conjI)
    show "get_all_duplicates c None = Inr ?s" by (rule ret)
    show "distinct ?s" by (rule dist)
    show "set ?s = {(v ! i, v ! j) | v i j d k.
                d \<in> set (bins c) \<and> map_of d k = Some v \<and> i < j \<and> j < length v}"
      by (rule s)
    show "buckets_distinct (bins c) \<longrightarrow> (\<forall>(a, b)\<in>set ?s. a \<noteq> b)"
      using ne by blast
    show "\<forall>d\<in>set (bins c). \<forall>k. \<forall>a\<in>set (bucket_at d k). \<forall>b\<in>set (bucket_at d k).
        a \<noteq> b \<longrightarrow> (a, b) \<in> set ?s \<or> (b, a) \<in> set ?s"
      using one by blast
  qed
qed

text \<open>
  C2 fails on the example. \<^verbatim>\<open>get_all_duplicates\<close> collects the tuples in a set so
  that a pair is reported once, but the ids 0 and 8 share a bucket in both bands, the
  bucket of band 0 lists 0 first and the bucket of band 1 lists 8 first: the pair is
  returned as \<open>(0, 8)\<close> and as \<open>(8, 0)\<close>.
\<close>

theorem pair_in_both_orders:
  "Cache_init (byte_hasher 2) 2 = Inr empty_cache \<and>
   run poly_hash empty_cache
     [Update ''ab'' (Some (IntId 0)), Update ''ac'' (Some (IntId 8)), Update ''dc'' (Some (IntId 0))]
     = example_cache \<and>
   get_all_duplicates example_cache None =
     Inr [(Some (IntId 0), Some (IntId 8)), (Some (IntId 8), Some (IntId 0))]"
  using Cache_init_example example_all_duplicates
  by (simp add: example_cache_def example_calls_def)

section \<open>Export and import\<close>

lemma str_int_examples:
  "str_int 314 = ''314''" "str_int 315 = ''315''" "str_int 316 = ''316''" "str_int 317 = ''317''"
  "str_int 0 = ''0''" "str_int 8 = ''8''" "str_int 12 = ''12''"
  by code_simp+

lemma to_json_example:
  "to_json example_cache =
     \<lparr>json_bins =
        [[(''314'', [Some (IntId 0), Some (IntId 8)]), (''317'', [Some (IntId 0)])],
         [(''315'', [Some (IntId 0)]), (''316'', [Some (IntId 8), Some (IntId 0)])]],
      json_hasher = byte_hasher 2, json_band_width = 1, json_num_bands = 2,
      json_fingerprints = [(''0'', [100, 99]), (''8'', [97, 99])],
      json_id_key_type = Some ''int''\<rparr>"
  by (simp add: to_json_def jsonable_def json_dump_load_def dict_of_def example_cache_eq
      str_int_examples)

lemma from_json_example: "from_json (to_json example_cache) = Inr example_cache_loaded"
  by (simp add: to_json_example from_json_def Cache_init_def num_seeds_byte_hasher
      key_typecast_def int_of_char_def dict_of_def set_update_def set_add_def
      example_cache_loaded_def)

text \<open>
  C1 fails on the example. The export and import succeed and \<^verbatim>\<open>get_all_duplicates\<close>
  returns what it returned before, but the keys of the bins come back as strings, so
  the lookup by the int hash finds no bucket: \<^verbatim>\<open>get_duplicates_of(doc_id=0)\<close> returns
  the ids 0 and 8 before the export and the empty set after the import.
\<close>

theorem round_trip_loses_duplicates_of:
  "from_json (to_json example_cache) = Inr example_cache_loaded \<and>
   get_all_duplicates example_cache_loaded None = get_all_duplicates example_cache None \<and>
   map_of (fingerprints example_cache) (Some (IntId 0)) = Some [100, 99] \<and>
   map_of (fingerprints example_cache_loaded) (Some (IntId 0)) = Some [100, 99] \<and>
   fst (get_duplicates_of poly_hash example_cache None (Some (IntId 0)) None)
     = Inr [Some (IntId 0), Some (IntId 8)] \<and>
   fst (get_duplicates_of poly_hash example_cache_loaded None (Some (IntId 0)) None) = Inr []"
proof -
  have "get_all_duplicates example_cache_loaded None = get_all_duplicates example_cache None"
    by (simp add: example_all_duplicates)
      (simp add: example_cache_loaded_def get_all_duplicates_def set_update_def set_add_def)
  moreover have "fst (get_duplicates_of poly_hash example_cache None (Some (IntId 0)) None)
     = Inr [Some (IntId 0), Some (IntId 8)]"
    by (simp add: example_cache_eq get_duplicates_of_def candidates_of_def bins'_2 Let_def
        dd_getitem_def set_update_def set_add_def poly_hash_def)
  moreover have "fst (get_duplicates_of poly_hash example_cache_loaded None (Some (IntId 0)) None)
     = Inr []"
    by (simp add: example_cache_loaded_def get_duplicates_of_def candidates_of_def bins'_2 Let_def
        dd_getitem_def set_update_def set_add_def poly_hash_def)
  moreover have "map_of (fingerprints example_cache) (Some (IntId 0)) = Some [100, 99]"
    "map_of (fingerprints example_cache_loaded) (Some (IntId 0)) = Some [100, 99]"
    by (simp_all add: example_cache_eq example_cache_loaded_def)
  ultimately show ?thesis
    using from_json_example by simp
qed

text \<open>
  The import casts \<^verbatim>\<open>k[0]\<close>, the first character of a key of the store: the id 12 is
  exported as the key "12" and comes back as the id 1, so the id 12 is unknown after the
  import.
\<close>

lemma long_id_cache_eq:
  "long_id_cache =
     \<lparr>bins = [[(IntKey 314, [Some (IntId 12)])], [(IntKey 315, [Some (IntId 12)])]],
      hasher = byte_hasher 2, band_width = 1, num_bands = 2,
      fingerprints = [(Some (IntId 12), [97, 98])]\<rparr>"
  by (simp add: long_id_cache_def empty_cache_def eval_defs)

lemma round_trip_truncates_id:
  "map (\<lambda>c. (fingerprints c,
              fst (get_duplicates_of poly_hash c None (Some (IntId 12)) None)))
     [long_id_cache] = [([(Some (IntId 12), [97, 98])], Inr [Some (IntId 12)])] \<and>
   map_sum id (\<lambda>c. (fingerprints c,
              fst (get_duplicates_of poly_hash c None (Some (IntId 12)) None)))
     (from_json (to_json long_id_cache))
     = Inr ([(Some (IntId 1), [97, 98])], Inl (ValueError must_provide))"
  by (simp add: long_id_cache_eq to_json_def jsonable_def json_dump_load_def dict_of_def
      str_int_examples from_json_def Cache_init_def num_seeds_byte_hasher
      key_typecast_def int_of_char_def set_update_def set_add_def
      get_duplicates_of_def candidates_of_def bins'_2 Let_def dd_getitem_def poly_hash_def)


end
